theory Spec2Isabelle
  imports Main "HOL-Library.Sublist" "HOL-Library.Multiset" "HOL-Library.AList"
begin

section \<open>Python strings and POSIX path primitives\<close>

text \<open>
  The module \<^verbatim>\<open>bvzfilesystemlib.py\<close> works on Python \<^verbatim>\<open>str\<close> paths through
  \<^verbatim>\<open>os.path\<close> (the POSIX flavour: the module's own comments say it is Unix-only).
  A path is a \<open>string\<close>; the separator is the single character \<open>/\<close>. The string
  methods and the pure \<^verbatim>\<open>posixpath\<close> functions the module calls are written out
  below, each following the library routine it stands for.
\<close>

definition sep :: char where
  "sep = CHR ''/''"

text \<open>\<^verbatim>\<open>s.lstrip("/")\<close> and \<^verbatim>\<open>s.rstrip("/")\<close>: drop the whole leading/trailing run.\<close>

definition lstrip :: "string \<Rightarrow> string" where
  "lstrip s = dropWhile (\<lambda>c. c = sep) s"

definition rstrip :: "string \<Rightarrow> string" where
  "rstrip s = rev (dropWhile (\<lambda>c. c = sep) (rev s))"

text \<open>
  \<^verbatim>\<open>s.split("/")\<close>: the pieces between separators; an empty string gives one empty
  piece. The last equation's \<open>[]\<close> branch completes the case distinction and is never
  taken (\<open>str_split\<close> never returns the empty list).
\<close>

fun str_split :: "string \<Rightarrow> string list" where
  "str_split [] = [[]]"
| "str_split (c # cs) =
     (if c = sep then [] # str_split cs
      else (case str_split cs of
              [] \<Rightarrow> [[c]]
            | w # ws \<Rightarrow> (c # w) # ws))"

text \<open>\<^verbatim>\<open>s.rfind("/")\<close>: the index of the last separator, or \<open>-1\<close>.\<close>

fun rfind :: "string \<Rightarrow> int" where
  "rfind [] = -1"
| "rfind (c # cs) =
     (let r = rfind cs in
      if 0 \<le> r then r + 1 else if c = sep then 0 else -1)"

text \<open>
  \<^verbatim>\<open>posixpath.split(p)\<close>:
  \<^verbatim>\<open>i = p.rfind(sep) + 1; head, tail = p[:i], p[i:];
  if head and head != sep*len(head): head = head.rstrip(sep); return head, tail\<close>.
  \<^verbatim>\<open>posixpath.dirname\<close> is the same routine returning the head only.
\<close>

definition path_split :: "string \<Rightarrow> string \<times> string" where
  "path_split p =
     (let i = nat (rfind p + 1);
          head = take i p;
          tail = drop i p
      in (if head \<noteq> [] \<and> head \<noteq> replicate (length head) sep then rstrip head else head,
          tail))"

definition dirname :: "string \<Rightarrow> string" where
  "dirname p =
     (let i = nat (rfind p + 1);
          head = take i p
      in if head \<noteq> [] \<and> head \<noteq> replicate (length head) sep then rstrip head else head)"

text \<open>
  \<^verbatim>\<open>posixpath.join(a, *p)\<close>: a component that starts with the separator replaces
  what was joined so far; otherwise it is appended, with a separator unless the path
  so far is empty or already ends with one.
\<close>

definition starts_with_sep :: "string \<Rightarrow> bool" where
  "starts_with_sep b = (case b of [] \<Rightarrow> False | c # _ \<Rightarrow> c = sep)"

definition ends_with_sep :: "string \<Rightarrow> bool" where
  "ends_with_sep b = (case rev b of [] \<Rightarrow> False | c # _ \<Rightarrow> c = sep)"

definition join_step :: "string \<Rightarrow> string \<Rightarrow> string" where
  "join_step path b =
     (if starts_with_sep b then b
      else if path = [] \<or> ends_with_sep path then path @ b
      else path @ sep # b)"

definition path_join :: "string \<Rightarrow> string list \<Rightarrow> string" where
  "path_join a p = foldl join_step a p"


section \<open>The filesystem the module observes\<close>

text \<open>
  Every other \<^verbatim>\<open>os\<close> call reads the host filesystem. The filesystem is a record of
  the answers those calls give: \<^verbatim>\<open>os.path.exists\<close>, \<^verbatim>\<open>isdir\<close>, \<^verbatim>\<open>islink\<close>,
  \<^verbatim>\<open>os.listdir\<close> and \<^verbatim>\<open>os.path.getsize\<close> (\<open>None\<close> where the call raises
  \<^verbatim>\<open>OSError\<close>), \<^verbatim>\<open>os.path.realpath\<close>, the triples \<^verbatim>\<open>os.walk\<close> yields, and the
  permission bits of each path (what a \<^verbatim>\<open>chmod\<close> would change).
\<close>

record filesystem =
  fs_exists :: "string \<Rightarrow> bool"
  fs_isdir :: "string \<Rightarrow> bool"
  fs_islink :: "string \<Rightarrow> bool"
  fs_listdir :: "string \<Rightarrow> string list option"
  fs_getsize :: "string \<Rightarrow> nat option"
  fs_realpath :: "string \<Rightarrow> string"
  fs_walk :: "string \<Rightarrow> (string \<times> string list \<times> string list) list"
  fs_mode :: "string \<Rightarrow> nat"

text \<open>
  A failed \<^verbatim>\<open>assert\<close> raises \<^verbatim>\<open>AssertionError\<close> (the specification's
  \<^verbatim>\<open>InvalidArgument\<close>); the other exceptions are the ones the library calls raise.
\<close>

datatype error = AssertionError | TypeError | IndexError | OSError

text \<open>
  Python values, for the one function whose \<^verbatim>\<open>assert type(path) is str\<close> decides
  a claim; and the "one path or a list of paths" arguments of the others.
\<close>

datatype pyval = PNone | PBool bool | PInt int | PStr string | PList "pyval list"

datatype paths_arg = OnePath string | PathList "string list"


section \<open>The module's functions\<close>

subsection \<open>\<^verbatim>\<open>convert_unix_path_to_os_path\<close> (lines 65-79)\<close>

text \<open>
  \<^verbatim>\<open>assert type(path) is str; return os.path.join(*path.lstrip("/").split("/"))\<close>.
  Calling \<^verbatim>\<open>os.path.join\<close> with no argument would raise \<^verbatim>\<open>TypeError\<close>.
\<close>

definition convert_unix_path_to_os_path :: "pyval \<Rightarrow> error + string" where
  "convert_unix_path_to_os_path path =
     (case path of
        PStr s \<Rightarrow>
          (case str_split (lstrip s) of
             [] \<Rightarrow> Inl TypeError
           | a # p \<Rightarrow> Inr (path_join a p))
      | _ \<Rightarrow> Inl AssertionError)"

subsection \<open>\<^verbatim>\<open>symlinks_to_real_paths\<close> (lines 84-105)\<close>

text \<open>
  \<^verbatim>\<open>if type(symlinks_p) != list: symlinks_p = list(symlinks_p)\<close>: \<^verbatim>\<open>list\<close> of a
  string is the list of its one-character strings (one per \<open>char\<close> here, one per
  code point in Python: the same for ASCII paths). Then each element is passed to
  \<^verbatim>\<open>os.path.realpath\<close> and the results are collected in order.
\<close>

definition py_list_of_str :: "string \<Rightarrow> string list" where
  "py_list_of_str s = map (\<lambda>c. [c]) s"

definition symlinks_to_real_paths :: "filesystem \<Rightarrow> paths_arg \<Rightarrow> string list" where
  "symlinks_to_real_paths fs symlinks_p =
     (let symlinks_p' = (case symlinks_p of
                           PathList ps \<Rightarrow> ps
                         | OnePath s \<Rightarrow> py_list_of_str s)
      in map (fs_realpath fs) symlinks_p')"

subsection \<open>\<^verbatim>\<open>recursively_list_files_in_dirs\<close> (lines 109-133)\<close>

text \<open>
  A string argument is wrapped into a one-element list; every directory must exist;
  then for every triple \<^verbatim>\<open>(dir_d, sub_dirs_n, files_n)\<close> of the walk and every
  \<^verbatim>\<open>file_n\<close> the entry \<^verbatim>\<open>os.path.join(dir_d, dir_d, file_n)\<close> is appended.
\<close>

definition walk_entries :: "string \<times> string list \<times> string list \<Rightarrow> string list" where
  "walk_entries t =
     (case t of (dir_d, sub_dirs_n, files_n) \<Rightarrow>
        map (\<lambda>file_n. path_join dir_d [dir_d, file_n]) files_n)"

definition recursively_list_files_in_dirs :: "filesystem \<Rightarrow> paths_arg \<Rightarrow> error + string list" where
  "recursively_list_files_in_dirs fs source_dirs_d =
     (let source_dirs_d' = (case source_dirs_d of
                              OnePath s \<Rightarrow> [s]
                            | PathList ds \<Rightarrow> ds)
      in if \<not> list_all (fs_exists fs) source_dirs_d' then Inl AssertionError
         else Inr (concat (map (\<lambda>source_dir_d. concat (map walk_entries (fs_walk fs source_dir_d)))
                               source_dirs_d')))"

subsection \<open>\<^verbatim>\<open>dir_files_keyed_by_size\<close> (lines 137-162)\<close>

text \<open>
  The output \<^verbatim>\<open>dict\<close> is an association list in insertion order. A size that is
  not yet a key gets a new one-element bucket at the end; otherwise the path is
  appended to the existing bucket, which keeps its place.
\<close>

fun size_loop ::
  "filesystem \<Rightarrow> string \<Rightarrow> string list \<Rightarrow> (nat \<times> string list) list
     \<Rightarrow> error + (nat \<times> string list) list" where
  "size_loop fs path_d [] output = Inr output"
| "size_loop fs path_d (file_n # files_n) output =
     (let file_p = path_join path_d [file_n] in
      case fs_getsize fs file_p of
        None \<Rightarrow> Inl OSError
      | Some file_size \<Rightarrow>
          (case map_of output file_size of
             None \<Rightarrow> size_loop fs path_d files_n (output @ [(file_size, [file_p])])
           | Some existing_files \<Rightarrow>
               size_loop fs path_d files_n
                 (AList.update file_size (existing_files @ [file_p]) output)))"

definition dir_files_keyed_by_size :: "filesystem \<Rightarrow> string \<Rightarrow> error + (nat \<times> string list) list" where
  "dir_files_keyed_by_size fs path_d =
     (if \<not> fs_exists fs path_d then Inl AssertionError
      else case fs_listdir fs path_d of
             None \<Rightarrow> Inl OSError
           | Some files_n \<Rightarrow> size_loop fs path_d files_n [])"

subsection \<open>\<^verbatim>\<open>lock_dir\<close> (lines 234-246)\<close>

text \<open>
  The body is the two assertions and nothing else; the function returns \<^verbatim>\<open>None\<close>.
  The model returns the filesystem the call leaves behind.
\<close>

definition lock_dir :: "filesystem \<Rightarrow> string \<Rightarrow> error + filesystem" where
  "lock_dir fs path_d =
     (if \<not> fs_exists fs path_d then Inl AssertionError
      else if \<not> fs_isdir fs path_d then Inl AssertionError
      else Inr fs)"

subsection \<open>\<^verbatim>\<open>symlink_source_is_in_dir\<close> (lines 250-276)\<close>

text \<open>
  \<^verbatim>\<open>assert os.path.islink(link_p)\<close>, then
  \<^verbatim>\<open>source_d, source_n = os.path.split(symlinks_to_real_paths(link_p)[0])\<close> (indexing an
  empty list raises \<^verbatim>\<open>IndexError\<close>), then \<^verbatim>\<open>source_d.startswith(path_d)\<close> or
  \<^verbatim>\<open>source_d == path_d\<close>.
\<close>

definition symlink_source_is_in_dir :: "filesystem \<Rightarrow> string \<Rightarrow> string \<Rightarrow> bool \<Rightarrow> error + bool" where
  "symlink_source_is_in_dir fs link_p path_d include_subdirs =
     (if \<not> fs_islink fs link_p then Inl AssertionError
      else case symlinks_to_real_paths fs (OnePath link_p) of
             [] \<Rightarrow> Inl IndexError
           | real_p # _ \<Rightarrow>
               (case path_split real_p of (source_d, source_n) \<Rightarrow>
                  if include_subdirs then Inr (prefix path_d source_d)
                  else Inr (source_d = path_d)))"

subsection \<open>\<^verbatim>\<open>ancestor_contains_file\<close> (lines 166-230)\<close>

text \<open>
  The upward walk is a \<^verbatim>\<open>while True\<close> loop that moves \<^verbatim>\<open>test_p\<close> to its
  \<^verbatim>\<open>dirname\<close> each round. It is a total function because \<^verbatim>\<open>dirname\<close> returns a
  prefix of its argument: either the path gets shorter, or it is its own parent and
  the latch \<^verbatim>\<open>already_at_root\<close> stops the second visit.
\<close>

lemma rstrip_prefix: "prefix (rstrip s) s"
proof -
  have "rev s = takeWhile (\<lambda>c. c = sep) (rev s) @ dropWhile (\<lambda>c. c = sep) (rev s)"
    by simp
  then have "s = rev (dropWhile (\<lambda>c. c = sep) (rev s)) @ rev (takeWhile (\<lambda>c. c = sep) (rev s))"
    by (metis rev_append rev_rev_ident)
  then show ?thesis
    unfolding rstrip_def by (metis prefixI)
qed

lemma dirname_prefix: "prefix (dirname p) p"
proof -
  have "prefix (take (nat (rfind p + 1)) p) p"
    by (rule take_is_prefix)
  moreover have "prefix (rstrip (take (nat (rfind p + 1)) p)) (take (nat (rfind p + 1)) p)"
    by (rule rstrip_prefix)
  ultimately show ?thesis
    unfolding dirname_def Let_def by (auto intro: prefix_order.trans)
qed

lemma dirname_length_le: "length (dirname p) \<le> length p"
  using dirname_prefix [of p] by (rule prefix_length_le)

lemma dirname_same_length:
  assumes "length (dirname p) = length p"
  shows "dirname p = p"
proof -
  obtain zs where zs: "p = dirname p @ zs"
    using dirname_prefix [of p] by (auto simp: prefix_def)
  then have "length p = length (dirname p) + length zs"
    by (metis length_append)
  with assms have "zs = []" by simp
  with zs show ?thesis by simp
qed

lemma dirname_shrinks: "dirname (dirname p) \<noteq> dirname p \<Longrightarrow> length (dirname p) < length p"
  using dirname_length_le [of p] dirname_same_length [of p]
  by (cases "length (dirname p) = length p") auto

lemma dirname_latch_measure: "2 * length (dirname p) < Suc (2 * length p)"
  using dirname_length_le [of p] by linarith

text \<open>
  The \<^verbatim>\<open>for file_n in files_n\<close> loop returns \<^verbatim>\<open>test_p\<close> as soon as one joined
  path exists: it returns exactly when some name of the list is there.
\<close>

definition has_marker :: "filesystem \<Rightarrow> string list \<Rightarrow> string \<Rightarrow> bool" where
  "has_marker fs files_n test_p =
     list_ex (\<lambda>file_n. fs_exists fs (path_join test_p [file_n])) files_n"

text \<open>
  \<^verbatim>\<open>depth and count >= depth\<close>: \<^verbatim>\<open>None\<close> and \<open>0\<close> are falsy. The source's
  counter \<^verbatim>\<open>count\<close> is written \<open>count_i\<close>, since \<open>count\<close> is a constant of the
  multiset library. Python integers are unbounded, so the counter is an \<open>int\<close>.
\<close>

definition depth_reached :: "int option \<Rightarrow> int \<Rightarrow> bool" where
  "depth_reached depth count_i =
     (case depth of None \<Rightarrow> False | Some d \<Rightarrow> d \<noteq> 0 \<and> d \<le> count_i)"

function acf_loop ::
  "filesystem \<Rightarrow> string list \<Rightarrow> int option \<Rightarrow> string \<Rightarrow> int \<Rightarrow> bool \<Rightarrow> string option" where
  "acf_loop fs files_n depth test_p count_i already_at_root =
     (if has_marker fs files_n test_p then Some test_p
      else if depth_reached depth (count_i + 1) then None
      else if dirname (dirname test_p) = dirname test_p then
        (if already_at_root then None
         else acf_loop fs files_n depth (dirname test_p) (count_i + 1) True)
      else acf_loop fs files_n depth (dirname test_p) (count_i + 1) already_at_root)"
  by pat_completeness auto
termination
  by (relation "measure (\<lambda>(fs, files_n, depth, test_p, count_i, already_at_root).
          2 * length test_p + (if already_at_root then 0 else 1))")
     (auto simp: dirname_shrinks dirname_latch_measure)

declare acf_loop.simps [simp del]

text \<open>
  Lines 201-209: the trailing separators are stripped, a path that is then not a
  directory is replaced by its \<^verbatim>\<open>dirname\<close>, and the walk starts at the
  \<^verbatim>\<open>dirname\<close> of the result.
\<close>

definition acf_start :: "filesystem \<Rightarrow> string \<Rightarrow> string" where
  "acf_start fs path_p =
     (let path_p' = rstrip path_p;
          path_p'' = (if \<not> fs_isdir fs path_p' then dirname path_p' else path_p')
      in dirname path_p'')"

definition names_of :: "paths_arg \<Rightarrow> string list" where
  "names_of files_n = (case files_n of OnePath n \<Rightarrow> [n] | PathList ns \<Rightarrow> ns)"

definition ancestor_contains_file ::
  "filesystem \<Rightarrow> string \<Rightarrow> paths_arg \<Rightarrow> int option \<Rightarrow> error + string option" where
  "ancestor_contains_file fs path_p files_n depth =
     (if \<not> fs_exists fs path_p then Inl AssertionError
      else if \<not> fs_isdir fs path_p then Inl AssertionError
      else Inr (acf_loop fs (names_of files_n) depth (acf_start fs path_p) 0 False))"

text \<open>
  Which directories a call examines is an effect of the loop, not part of its value:
  each round reads the filesystem below \<^verbatim>\<open>test_p\<close> (the \<^verbatim>\<open>os.path.exists\<close> calls of
  lines 213-214). \<open>acf_examined\<close> is the same loop, branch for branch, returning the
  values of \<^verbatim>\<open>test_p\<close> whose entries were tested, in the order of the rounds.
\<close>

function acf_examined ::
  "filesystem \<Rightarrow> string list \<Rightarrow> int option \<Rightarrow> string \<Rightarrow> int \<Rightarrow> bool \<Rightarrow> string list" where
  "acf_examined fs files_n depth test_p count_i already_at_root =
     test_p #
     (if has_marker fs files_n test_p then []
      else if depth_reached depth (count_i + 1) then []
      else if dirname (dirname test_p) = dirname test_p then
        (if already_at_root then []
         else acf_examined fs files_n depth (dirname test_p) (count_i + 1) True)
      else acf_examined fs files_n depth (dirname test_p) (count_i + 1) already_at_root)"
  by pat_completeness auto
termination
  by (relation "measure (\<lambda>(fs, files_n, depth, test_p, count_i, already_at_root).
          2 * length test_p + (if already_at_root then 0 else 1))")
     (auto simp: dirname_shrinks dirname_latch_measure)

declare acf_examined.simps [simp del]

definition ancestor_examined ::
  "filesystem \<Rightarrow> string \<Rightarrow> paths_arg \<Rightarrow> int option \<Rightarrow> string list" where
  "ancestor_examined fs path_p files_n depth =
     acf_examined fs (names_of files_n) depth (acf_start fs path_p) 0 False"

text \<open>
  A proof device: the rounds of the loop when no marker is ever found and no depth
  bound applies (the loop with both exits removed). No claim is stated with it.
\<close>

function acf_candidates :: "string \<Rightarrow> bool \<Rightarrow> string list" where
  "acf_candidates test_p already_at_root =
     test_p #
       (if dirname (dirname test_p) = dirname test_p then
          (if already_at_root then [] else acf_candidates (dirname test_p) True)
        else acf_candidates (dirname test_p) already_at_root)"
  by pat_completeness auto
termination
  by (relation "measure (\<lambda>(test_p, already_at_root).
          2 * length test_p + (if already_at_root then 0 else 1))")
     (auto simp: dirname_shrinks dirname_latch_measure)

declare acf_candidates.simps [simp del]

section \<open>Normalised absolute paths and their ancestors\<close>

text \<open>
  The vocabulary in which the walk is measured, independent of the code: a
  normalised absolute path is given by its components, \<^verbatim>\<open>/s1/s2/.../sk\<close> (the root
  \<^verbatim>\<open>/\<close> for no component), each component a plain name: not empty, without a
  separator, and neither \<^verbatim>\<open>.\<close> nor \<^verbatim>\<open>..\<close>. The ancestors of such a directory are
  the directories of its proper prefixes, nearest first and the root last. A
  directory holds a marker when the path made of its components and the marker's
  name exists.
\<close>

definition abs_path :: "string list \<Rightarrow> string" where
  "abs_path segs = (if segs = [] then [sep] else concat (map (\<lambda>s. sep # s) segs))"

definition plain_name :: "string \<Rightarrow> bool" where
  "plain_name s \<longleftrightarrow> s \<noteq> [] \<and> sep \<notin> set s \<and> s \<noteq> ''.'' \<and> s \<noteq> ''..''"

definition ancestors_of :: "string list \<Rightarrow> string list list" where
  "ancestors_of segs = map (\<lambda>k. take k segs) (rev [0..<length segs])"

definition holds_marker :: "filesystem \<Rightarrow> string list \<Rightarrow> string list \<Rightarrow> bool" where
  "holds_marker fs markers segs = list_ex (\<lambda>m. fs_exists fs (abs_path (segs @ [m]))) markers"

text \<open>The elements of a list up to and including the first that satisfies \<open>P\<close>.\<close>

fun upto_first :: "('a \<Rightarrow> bool) \<Rightarrow> 'a list \<Rightarrow> 'a list" where
  "upto_first P [] = []"
| "upto_first P (x # xs) = x # (if P x then [] else upto_first P xs)"

section \<open>Example filesystems\<close>

text \<open>
  Small concrete filesystems on which the functions are evaluated: a tree
  \<^verbatim>\<open>/a/b/c\<close> with a marker file \<^verbatim>\<open>/a/.m\<close> and a regular file
  \<^verbatim>\<open>/a/b/c/f.txt\<close>; a symbolic link \<^verbatim>\<open>/tmp/link\<close> whose real path is
  \<^verbatim>\<open>/data/x/y\<close> (relative paths resolve against the working directory
  \<^verbatim>\<open>/home/user\<close>); a relative directory \<^verbatim>\<open>proj\<close> with one file and one
  sub-directory; a directory \<^verbatim>\<open>/d\<close> with three files and one sub-directory.
  The mode \<open>493\<close> is octal 755: the owner may write.
\<close>

definition tree_fs :: filesystem where
  "tree_fs =
     \<lparr> fs_exists = (\<lambda>p. p \<in> set [''/'', ''/a'', ''/a/.m'', ''/a/b'', ''/a/b/c'', ''/a/b/c/f.txt'']),
       fs_isdir = (\<lambda>p. p \<in> set [''/'', ''/a'', ''/a/b'', ''/a/b/c'']),
       fs_islink = (\<lambda>p. False),
       fs_listdir = (\<lambda>p. None),
       fs_getsize = (\<lambda>p. None),
       fs_realpath = (\<lambda>p. p),
       fs_walk = (\<lambda>p. []),
       fs_mode = (\<lambda>p. 493) \<rparr>"

definition link_fs :: filesystem where
  "link_fs =
     \<lparr> fs_exists = (\<lambda>p. p \<in> set [''/'', ''/tmp'', ''/tmp/link'', ''/data'', ''/data/x'', ''/data/x/y'']),
       fs_isdir = (\<lambda>p. p \<in> set [''/'', ''/tmp'', ''/data'', ''/data/x'']),
       fs_islink = (\<lambda>p. p = ''/tmp/link''),
       fs_listdir = (\<lambda>p. None),
       fs_getsize = (\<lambda>p. None),
       fs_realpath = (\<lambda>p. if p = ''/tmp/link'' then ''/data/x/y''
                          else if starts_with_sep p then p else ''/home/user/'' @ p),
       fs_walk = (\<lambda>p. []),
       fs_mode = (\<lambda>p. 493) \<rparr>"

definition proj_fs :: filesystem where
  "proj_fs =
     \<lparr> fs_exists = (\<lambda>p. p \<in> set [''proj'', ''proj/f.txt'', ''proj/sub'', ''proj/sub/g.txt'']),
       fs_isdir = (\<lambda>p. p \<in> set [''proj'', ''proj/sub'']),
       fs_islink = (\<lambda>p. False),
       fs_listdir = (\<lambda>p. None),
       fs_getsize = (\<lambda>p. None),
       fs_realpath = (\<lambda>p. ''/home/user/'' @ p),
       fs_walk = (\<lambda>p. if p = ''proj''
                        then [(''proj'', [''sub''], [''f.txt'']), (''proj/sub'', [], [''g.txt''])]
                        else []),
       fs_mode = (\<lambda>p. 493) \<rparr>"

definition dir_fs :: filesystem where
  "dir_fs =
     \<lparr> fs_exists = (\<lambda>p. p \<in> set [''/d'', ''/d/f1'', ''/d/sub'', ''/d/f2'', ''/d/f3'', ''/d/sub/deep'']),
       fs_isdir = (\<lambda>p. p \<in> set [''/d'', ''/d/sub'']),
       fs_islink = (\<lambda>p. False),
       fs_listdir = (\<lambda>p. if p = ''/d'' then Some [''f1'', ''sub'', ''f2'', ''f3'']
                           else if p = ''/d/sub'' then Some [''deep''] else None),
       fs_getsize = (\<lambda>p. if p = ''/d/f1'' then Some 10
                           else if p = ''/d/sub'' then Some 4096
                           else if p = ''/d/f2'' then Some 10
                           else if p = ''/d/f3'' then Some 20
                           else if p = ''/d/sub/deep'' then Some 7
                           else None),
       fs_realpath = (\<lambda>p. p),
       fs_walk = (\<lambda>p. []),
       fs_mode = (\<lambda>p. 493) \<rparr>"


text \<open>
  A process whose working directory is \<^verbatim>\<open>/home/user/work\<close>, which holds the marker
  \<^verbatim>\<open>.m\<close>; no other directory holds one. Relative paths are resolved against the
  working directory, and the empty path does not exist.
\<close>

definition cwd_fs :: filesystem where
  "cwd_fs =
     \<lparr> fs_exists = (\<lambda>p. p \<in> set [''/'', ''/home'', ''/home/user'', ''/home/user/work'',
                                  ''/home/user/work/.m'', ''.'', ''..'', ''.m'', ''./.m'']),
       fs_isdir = (\<lambda>p. p \<in> set [''/'', ''/home'', ''/home/user'', ''/home/user/work'', ''.'', ''..'']),
       fs_islink = (\<lambda>p. False),
       fs_listdir = (\<lambda>p. None),
       fs_getsize = (\<lambda>p. None),
       fs_realpath = (\<lambda>p. p),
       fs_walk = (\<lambda>p. []),
       fs_mode = (\<lambda>p. 493) \<rparr>"

section \<open>The invariant of the size-grouping loop\<close>

text \<open>
  After the paths \<open>paths\<close> have been processed the keys are distinct, every bucket
  is non-empty and holds exactly the processed paths of its size in processing order,
  every processed path has a bucket, and the buckets together hold the processed
  paths with their multiplicities.
\<close>

definition bucket_inv :: "filesystem \<Rightarrow> string list \<Rightarrow> (nat \<times> string list) list \<Rightarrow> bool" where
  "bucket_inv fs paths output \<longleftrightarrow>
     distinct (map fst output)
     \<and> (\<forall>k v. map_of output k = Some v \<longrightarrow>
            v \<noteq> [] \<and> v = filter (\<lambda>p. fs_getsize fs p = Some k) paths)
     \<and> (\<forall>p \<in> set paths. \<exists>k v. fs_getsize fs p = Some k \<and> map_of output k = Some v)
     \<and> mset (concat (map snd output)) = mset paths"

section \<open>The ancestor walk: which directories, in which order\<close>

subsection \<open>The loop against its rounds\<close>

lemma acf_loop_unbounded:
  "depth = None \<or> depth = Some 0 \<Longrightarrow>
   acf_loop fs files_n depth test_p count_i already_at_root =
     List.find (has_marker fs files_n) (acf_candidates test_p already_at_root)"
proof (induction fs files_n depth test_p count_i already_at_root rule: acf_loop.induct)
  case (1 fs files_n depth test_p count_i already_at_root)
  have nd: "\<not> depth_reached depth (count_i + 1)"
    using "1.prems" by (auto simp: depth_reached_def)
  show ?case
    using "1.IH" "1.prems" nd
    by (subst acf_loop.simps, subst acf_candidates.simps) auto
qed

lemma acf_loop_bounded:
  "d \<noteq> 0 \<Longrightarrow>
   acf_loop fs files_n (Some d) test_p count_i already_at_root =
     List.find (has_marker fs files_n)
       (take (max 1 (nat (d - count_i))) (acf_candidates test_p already_at_root))"
proof (induction fs files_n "Some d" test_p count_i already_at_root rule: acf_loop.induct)
  case (1 fs files_n test_p count_i already_at_root)
  show ?case
  proof (cases "d \<le> count_i + 1")
    case True
    then have m: "max 1 (nat (d - count_i)) = 1" by auto
    have dr: "depth_reached (Some d) (count_i + 1)"
      using True "1.prems" by (simp add: depth_reached_def)
    show ?thesis
      unfolding m using dr
      by (subst acf_loop.simps, subst acf_candidates.simps) simp
  next
    case False
    then have m: "max 1 (nat (d - count_i)) = Suc (max 1 (nat (d - (count_i + 1))))" by auto
    have dr: "\<not> depth_reached (Some d) (count_i + 1)"
      using False by (simp add: depth_reached_def)
    show ?thesis
      unfolding m using dr "1.hyps" "1.prems"
      by (subst acf_loop.simps, subst acf_candidates.simps) auto
  qed
qed

lemma acf_candidates_latched_root: "dirname t = t \<Longrightarrow> acf_candidates t True = [t]"
  by (subst acf_candidates.simps) simp

lemma acf_examined_unbounded:
  "depth = None \<or> depth = Some 0 \<Longrightarrow>
   acf_examined fs files_n depth test_p count_i already_at_root =
     upto_first (has_marker fs files_n) (acf_candidates test_p already_at_root)"
proof (induction fs files_n depth test_p count_i already_at_root rule: acf_examined.induct)
  case (1 fs files_n depth test_p count_i already_at_root)
  have nd: "\<not> depth_reached depth (count_i + 1)"
    using "1.prems" by (auto simp: depth_reached_def)
  show ?case
    using "1.IH" "1.prems" nd
    by (subst acf_examined.simps, subst acf_candidates.simps) auto
qed

subsection \<open>\<^verbatim>\<open>dirname\<close> and \<^verbatim>\<open>join\<close> on normalised absolute paths\<close>

lemma rfind_no_sep: "sep \<notin> set s \<Longrightarrow> rfind s = -1"
  by (induction s) (auto simp: Let_def)

lemma rfind_last_sep: "sep \<notin> set s \<Longrightarrow> rfind (d @ sep # s) = int (length d)"
  by (induction d) (auto simp: Let_def rfind_no_sep)

lemma rstrip_keeps: "z \<noteq> [] \<Longrightarrow> last z \<noteq> sep \<Longrightarrow> rstrip z = z"
proof -
  assume "z \<noteq> []" and "last z \<noteq> sep"
  then have "dropWhile (\<lambda>c. c = sep) (rev z) = rev z"
    by (cases "rev z") (auto simp: last_rev [symmetric] hd_rev)
  then show ?thesis by (simp add: rstrip_def)
qed

lemma rstrip_snoc_sep: "rstrip (z @ [sep]) = rstrip z"
  by (simp add: rstrip_def)

lemma abs_path_snoc:
  "abs_path (xs @ [s]) = (if xs = [] then sep # s else abs_path xs @ sep # s)"
  by (simp add: abs_path_def)

lemma abs_path_nonempty: "abs_path xs \<noteq> []"
  by (cases xs) (simp_all add: abs_path_def)

lemma abs_path_last:
  "xs \<noteq> [] \<Longrightarrow> list_all plain_name xs \<Longrightarrow> last (abs_path xs) \<noteq> sep"
proof (induction xs rule: rev_induct)
  case Nil
  then show ?case by simp
next
  case (snoc s xs)
  then have "s \<noteq> []" and "sep \<notin> set s" by (simp_all add: plain_name_def)
  then have "last s \<noteq> sep" using last_in_set by metis
  then show ?case using \<open>s \<noteq> []\<close> by (simp add: abs_path_snoc)
qed

lemma abs_path_root_iff:
  "list_all plain_name xs \<Longrightarrow> abs_path xs = [sep] \<longleftrightarrow> xs = []"
proof
  assume v: "list_all plain_name xs" and e: "abs_path xs = [sep]"
  show "xs = []"
  proof (rule ccontr)
    assume "xs \<noteq> []"
    then have "last (abs_path xs) \<noteq> sep" using v by (rule abs_path_last)
    then show False using e by simp
  qed
next
  assume "xs = []"
  then show "abs_path xs = [sep]" by (simp add: abs_path_def)
qed

lemma dirname_root: "dirname [sep] = [sep]"
  by (simp add: dirname_def Let_def)

lemma dirname_abs_path_snoc:
  assumes "list_all plain_name xs" and "plain_name s"
  shows "dirname (abs_path (xs @ [s])) = abs_path xs"
proof (cases "xs = []")
  case True
  have "rfind (sep # s) = 0"
    using rfind_last_sep [of s "[]"] assms(2) by (simp add: plain_name_def)
  then show ?thesis
    using True by (simp add: abs_path_snoc dirname_def Let_def abs_path_def)
next
  case False
  let ?d = "abs_path xs"
  have ns: "sep \<notin> set s" using assms(2) by (simp add: plain_name_def)
  have i: "rfind (?d @ sep # s) = int (length ?d)"
    using ns by (rule rfind_last_sep)
  have head: "take (nat (rfind (?d @ sep # s) + 1)) (?d @ sep # s) = ?d @ [sep]"
    unfolding i by (simp add: nat_add_distrib)
  have l: "last ?d \<noteq> sep" using False assms(1) by (rule abs_path_last)
  have ne: "?d \<noteq> []" by (rule abs_path_nonempty)
  have notall: "?d @ [sep] \<noteq> replicate (length (?d @ [sep])) sep"
  proof
    assume "?d @ [sep] = replicate (length (?d @ [sep])) sep"
    then have "set (?d @ [sep]) \<subseteq> {sep}"
      by (metis set_replicate_conv_if subset_insertI empty_subsetI order_refl)
    moreover have "last ?d \<in> set (?d @ [sep])" using last_in_set [OF ne] by simp
    ultimately have "last ?d = sep" by blast
    with l show False by simp
  qed
  have "dirname (?d @ sep # s) = rstrip (?d @ [sep])"
    unfolding dirname_def Let_def head using notall by simp
  also have "\<dots> = ?d"
    using ne l by (simp add: rstrip_snoc_sep rstrip_keeps)
  finally show ?thesis
    using False by (simp add: abs_path_snoc)
qed

lemma ancestors_of_snoc: "ancestors_of (xs @ [s]) = xs # ancestors_of xs"
  by (simp add: ancestors_of_def)

lemma abs_path_snoc_neq:
  assumes "list_all plain_name xs" and "plain_name s"
  shows "abs_path (xs @ [s]) \<noteq> abs_path xs"
proof
  assume "abs_path (xs @ [s]) = abs_path xs"
  then have "length (abs_path (xs @ [s])) = length (abs_path xs)" by simp
  moreover have "s \<noteq> []" using assms(2) by (simp add: plain_name_def)
  ultimately show False
    by (cases "xs = []") (simp_all add: abs_path_snoc, simp add: abs_path_def)
qed

lemma ends_with_sep_last: "ends_with_sep z \<longleftrightarrow> z \<noteq> [] \<and> last z = sep"
  by (cases z rule: rev_cases) (simp_all add: ends_with_sep_def)

lemma path_join_abs_path:
  assumes "plain_name m" and "list_all plain_name xs"
  shows "path_join (abs_path xs) [m] = abs_path (xs @ [m])"
proof -
  have m: "\<not> starts_with_sep m"
    using assms(1) by (cases m) (auto simp: plain_name_def starts_with_sep_def)
  show ?thesis
  proof (cases "xs = []")
    case True
    then show ?thesis
      using m by (simp add: path_join_def join_step_def abs_path_def ends_with_sep_def)
  next
    case False
    have "\<not> ends_with_sep (abs_path xs)"
      using abs_path_last [OF False assms(2)] by (simp add: ends_with_sep_last)
    then show ?thesis
      using m False by (simp add: path_join_def join_step_def abs_path_snoc abs_path_nonempty)
  qed
qed

lemma has_marker_abs_path:
  assumes "list_all plain_name markers" and "list_all plain_name xs"
  shows "has_marker fs markers (abs_path xs) = holds_marker fs markers xs"
proof -
  have "\<And>m. m \<in> set markers \<Longrightarrow> path_join (abs_path xs) [m] = abs_path (xs @ [m])"
    using assms by (simp add: list_all_iff path_join_abs_path)
  then show ?thesis
    by (simp add: has_marker_def holds_marker_def list_ex_iff)
qed

lemma rstrip_abs_path:
  "list_all plain_name segs \<Longrightarrow> segs \<noteq> [] \<Longrightarrow> rstrip (abs_path segs) = abs_path segs"
  using abs_path_last abs_path_nonempty by (simp add: rstrip_keeps)

lemma acf_start_abs_path:
  assumes "list_all plain_name segs" and "segs \<noteq> []" and "fs_isdir fs (abs_path segs)"
  shows "acf_start fs (abs_path segs) = abs_path (butlast segs)"
proof -
  obtain ys s where segs: "segs = ys @ [s]"
    using assms(2) by (metis rev_exhaust)
  have "dirname (abs_path segs) = abs_path ys"
    unfolding segs using assms(1) segs by (intro dirname_abs_path_snoc) simp_all
  then show ?thesis
    using assms segs by (simp add: acf_start_def rstrip_abs_path)
qed

subsection \<open>The rounds of the walk from a normalised absolute path\<close>

lemma acf_candidates_abs_path:
  "list_all plain_name xs \<Longrightarrow> xs \<noteq> [] \<Longrightarrow>
   acf_candidates (abs_path xs) False = map abs_path (xs # ancestors_of xs)"
proof (induction xs rule: rev_induct)
  case Nil
  then show ?case by simp
next
  case (snoc s ys)
  have vy: "list_all plain_name ys" and vs: "plain_name s"
    using snoc.prems(1) by simp_all
  have up: "dirname (abs_path (ys @ [s])) = abs_path ys"
    using vy vs by (rule dirname_abs_path_snoc)
  show ?case
  proof (cases "ys = []")
    case True
    have root: "abs_path ys = [sep]" using True by (simp add: abs_path_def)
    have "acf_candidates (abs_path (ys @ [s])) False = [abs_path (ys @ [s]), [sep]]"
      by (subst acf_candidates.simps)
         (simp add: up root dirname_root acf_candidates_latched_root)
    then show ?thesis
      using True by (simp add: ancestors_of_def abs_path_def)
  next
    case False
    obtain zs z where ys: "ys = zs @ [z]"
      using False by (metis rev_exhaust)
    have "dirname (abs_path ys) = abs_path zs"
      unfolding ys using vy ys by (intro dirname_abs_path_snoc) simp_all
    moreover have "abs_path zs \<noteq> abs_path ys"
      unfolding ys using vy ys abs_path_snoc_neq [of zs z] by simp
    ultimately have moving: "dirname (abs_path ys) \<noteq> abs_path ys" by simp
    have "acf_candidates (abs_path (ys @ [s])) False =
            abs_path (ys @ [s]) # acf_candidates (abs_path ys) False"
      by (subst acf_candidates.simps) (simp add: up moving)
    then show ?thesis
      using snoc.IH [OF vy False] by (simp add: ancestors_of_snoc)
  qed
qed

lemma ancestors_of_plain:
  "list_all plain_name segs \<Longrightarrow> xs \<in> set (ancestors_of segs) \<Longrightarrow> list_all plain_name xs"
  by (auto simp: ancestors_of_def list_all_iff dest: in_set_takeD)

lemma find_map_abs_path:
  assumes "\<And>x. x \<in> set L \<Longrightarrow> P (f x) = Q x"
  shows "List.find P (map f L) = map_option f (List.find Q L)"
  using assms by (induction L) auto

lemma upto_first_map:
  assumes "\<And>x. x \<in> set L \<Longrightarrow> P (f x) = Q x"
  shows "upto_first P (map f L) = map f (upto_first Q L)"
  using assms by (induction L) auto

lemma root_once:
  "list_all plain_name segs \<Longrightarrow> segs \<noteq> [] \<Longrightarrow>
   count_list (map abs_path (ancestors_of segs)) [sep] = 1"
proof (induction segs rule: rev_induct)
  case Nil
  then show ?case by simp
next
  case (snoc s ys)
  have vy: "list_all plain_name ys" using snoc.prems(1) by simp
  show ?case
  proof (cases "ys = []")
    case True
    then show ?thesis by (simp add: ancestors_of_def abs_path_def)
  next
    case False
    have "abs_path ys \<noteq> [sep]"
      using abs_path_root_iff [OF vy] False by simp
    then show ?thesis
      using snoc.IH [OF vy False] by (simp add: ancestors_of_snoc)
  qed
qed

lemma ancestors_of_last: "segs \<noteq> [] \<Longrightarrow> last (ancestors_of segs) = []"
  by (simp add: ancestors_of_def last_map last_rev hd_upt)

lemma ancestors_of_butlast:
  "segs \<noteq> [] \<Longrightarrow> butlast segs # ancestors_of (butlast segs) = ancestors_of segs"
  using ancestors_of_snoc [of "butlast segs" "last segs"] by simp

lemma acf_walk_abs_path:
  assumes dir: "fs_isdir fs (abs_path segs)"
    and depth: "depth = None \<or> depth = Some 0"
    and segs: "list_all plain_name segs" "2 \<le> length segs"
    and markers: "list_all plain_name markers"
  shows "acf_loop fs markers depth (acf_start fs (abs_path segs)) 0 False =
           map_option abs_path (List.find (holds_marker fs markers) (ancestors_of segs))"
    and "acf_examined fs markers depth (acf_start fs (abs_path segs)) 0 False =
           map abs_path (upto_first (holds_marker fs markers) (ancestors_of segs))"
proof -
  have ne: "segs \<noteq> []" using segs(2) by auto
  let ?xs = "butlast segs"
  have xs_ne: "?xs \<noteq> []"
    using segs(2) by (cases segs rule: rev_cases) auto
  have xs_plain: "list_all plain_name ?xs"
    using segs(1) by (auto simp: list_all_iff dest: in_set_butlastD)
  have start: "acf_start fs (abs_path segs) = abs_path ?xs"
    using segs(1) ne dir by (rule acf_start_abs_path)
  have cand: "acf_candidates (abs_path ?xs) False = map abs_path (ancestors_of segs)"
    using acf_candidates_abs_path [OF xs_plain xs_ne] ancestors_of_butlast [OF ne] by simp
  have conv: "\<And>x. x \<in> set (ancestors_of segs) \<Longrightarrow>
                has_marker fs markers (abs_path x) = holds_marker fs markers x"
    using markers segs(1) by (intro has_marker_abs_path) (auto intro: ancestors_of_plain)
  show "acf_loop fs markers depth (acf_start fs (abs_path segs)) 0 False =
           map_option abs_path (List.find (holds_marker fs markers) (ancestors_of segs))"
    unfolding start acf_loop_unbounded [OF depth] cand
    using conv by (rule find_map_abs_path)
  show "acf_examined fs markers depth (acf_start fs (abs_path segs)) 0 False =
           map abs_path (upto_first (holds_marker fs markers) (ancestors_of segs))"
    unfolding start acf_examined_unbounded [OF depth] cand
    using conv by (rule upto_first_map)
qed

section \<open>Auxiliary facts\<close>

lemmas path_eval =
  acf_start_def rstrip_def dirname_def sep_def path_join_def join_step_def
  starts_with_sep_def ends_with_sep_def has_marker_def names_of_def

lemma ancestor_contains_file_ok:
  "fs_exists fs path_p \<Longrightarrow> fs_isdir fs path_p \<Longrightarrow>
   ancestor_contains_file fs path_p files_n depth =
     Inr (acf_loop fs (names_of files_n) depth (acf_start fs path_p) 0 False)"
  by (simp add: ancestor_contains_file_def)

lemma find_take_one:
  "List.find P (take (Suc 0) (acf_candidates t l)) = (if P t then Some t else None)"
  by (subst acf_candidates.simps) simp

lemma tree_fs_abc_path:
  "''/a/b/c'' = abs_path [''a'', ''b'', ''c''] \<and> list_all plain_name [''a'', ''b'', ''c'']
   \<and> list_all plain_name [''.n'', ''.m''] \<and> list_all plain_name [''.none'']"
  by (simp add: abs_path_def plain_name_def sep_def)

lemma tree_fs_abc_ancestors:
  "ancestors_of [''a'', ''b'', ''c''] = [[''a'', ''b''], [''a''], []]"
  by (simp add: ancestors_of_def upt_rec)

lemma tree_fs_abc_holds:
  "\<not> holds_marker tree_fs [''.n'', ''.m''] [''a'', ''b'']
   \<and> holds_marker tree_fs [''.n'', ''.m''] [''a'']
   \<and> \<not> holds_marker tree_fs [''.none''] [''a'', ''b'']
   \<and> \<not> holds_marker tree_fs [''.none''] [''a'']
   \<and> \<not> holds_marker tree_fs [''.none''] []"
  by (simp add: holds_marker_def abs_path_def tree_fs_def sep_def)

lemma acf_negative_depth_as_depth_one:
  assumes "d < 0"
  shows "ancestor_contains_file fs path_p files_n (Some d) =
           ancestor_contains_file fs path_p files_n (Some 1)"
proof -
  have m: "max 1 (nat (d - 0)) = Suc 0" using assms by simp
  have "acf_loop fs (names_of files_n) (Some d) (acf_start fs path_p) 0 False =
          acf_loop fs (names_of files_n) (Some 1) (acf_start fs path_p) 0 False"
    using assms by (simp add: acf_loop_bounded m)
  then show ?thesis by (simp add: ancestor_contains_file_def)
qed

text \<open>
  Where the path names its parent, a bound of one round inspects that parent: for a
  directory given by its normalised absolute path, depth 1 or a negative depth
  returns the parent exactly when it holds one of the markers.
\<close>

lemma acf_bounded_one_abs_path:
  assumes "fs_exists fs (abs_path segs)" and "fs_isdir fs (abs_path segs)"
    and "list_all plain_name segs" and "segs \<noteq> []"
    and "list_all plain_name (names_of files_n)"
    and "d = 1 \<or> d < 0"
  shows "ancestor_contains_file fs (abs_path segs) files_n (Some d) =
           Inr (if holds_marker fs (names_of files_n) (butlast segs)
                then Some (abs_path (butlast segs)) else None)"
proof -
  have m: "max (Suc 0) (nat d) = Suc 0" and nz: "d \<noteq> 0"
    using assms(6) by auto
  have start: "acf_start fs (abs_path segs) = abs_path (butlast segs)"
    using assms(3,4,2) by (rule acf_start_abs_path)
  have "list_all plain_name (butlast segs)"
    using assms(3) by (auto simp: list_all_iff dest: in_set_butlastD)
  then have conv: "has_marker fs (names_of files_n) (abs_path (butlast segs)) =
                     holds_marker fs (names_of files_n) (butlast segs)"
    using assms(5) by (intro has_marker_abs_path)
  show ?thesis
    using assms(1,2) nz
    by (simp add: ancestor_contains_file_ok acf_loop_bounded m find_take_one start conv)
qed

lemma str_split_nonempty: "str_split s \<noteq> []"
  by (induction s) (auto split: list.splits)

lemma symlinks_of_one_string:
  "symlinks_to_real_paths fs (OnePath p) = map (\<lambda>c. fs_realpath fs [c]) p"
  by (simp add: symlinks_to_real_paths_def py_list_of_str_def comp_def)

lemma symlink_source_first_char:
  "fs_islink fs (c # cs) \<Longrightarrow>
   symlink_source_is_in_dir fs (c # cs) path_d True =
     Inr (prefix path_d (fst (path_split (fs_realpath fs [c]))))"
  by (simp add: symlink_source_is_in_dir_def symlinks_of_one_string split: prod.splits)

lemma join_twice_absolute:
  "starts_with_sep dir_d \<Longrightarrow> path_join dir_d [dir_d, file_n] = path_join dir_d [file_n]"
  by (simp add: path_join_def join_step_def)

lemma dir_fs_grouping:
  "dir_files_keyed_by_size dir_fs ''/d'' =
     Inr [(10, [''/d/f1'', ''/d/f2'']), (4096, [''/d/sub'']), (20, [''/d/f3''])]"
  by (simp add: dir_files_keyed_by_size_def dir_fs_def path_eval)

lemma mset_concat_update:
  "map_of al k = Some v \<Longrightarrow>
   mset (concat (map snd (AList.update k (v @ w) al))) = mset (concat (map snd al)) + mset w"
  by (induction al) (auto split: if_splits)

lemma bucket_inv_empty: "bucket_inv fs [] []"
  by (simp add: bucket_inv_def)

lemma bucket_inv_new:
  assumes inv: "bucket_inv fs paths output"
    and sz: "fs_getsize fs p = Some k"
    and new: "map_of output k = None"
  shows "bucket_inv fs (paths @ [p]) (output @ [(k, [p])])"
proof -
  have d: "distinct (map fst output)"
    and b: "\<And>k' v. map_of output k' = Some v \<Longrightarrow>
              v \<noteq> [] \<and> v = filter (\<lambda>q. fs_getsize fs q = Some k') paths"
    and c: "\<And>q. q \<in> set paths \<Longrightarrow> \<exists>k' v. fs_getsize fs q = Some k' \<and> map_of output k' = Some v"
    and m: "mset (concat (map snd output)) = mset paths"
    using inv by (auto simp: bucket_inv_def)
  have notin: "k \<notin> fst ` set output"
    using new by (simp add: map_of_eq_None_iff)
  have none_k: "filter (\<lambda>q. fs_getsize fs q = Some k) paths = []"
  proof -
    have "\<And>q. q \<in> set paths \<Longrightarrow> fs_getsize fs q \<noteq> Some k"
      using c new by fastforce
    then show ?thesis by (simp add: filter_empty_conv)
  qed
  have lookup: "map_of (output @ [(k, [p])]) k' =
      (if k' = k then Some [p] else map_of output k')" for k'
    using new by (auto simp: map_add_def split: option.splits)
  have d': "distinct (map fst (output @ [(k, [p])]))"
    using d notin by simp
  have b': "v \<noteq> [] \<and> v = filter (\<lambda>q. fs_getsize fs q = Some k') (paths @ [p])"
    if "map_of (output @ [(k, [p])]) k' = Some v" for k' v
  proof (cases "k' = k")
    case True
    then show ?thesis using that lookup [of k'] none_k sz by simp
  next
    case False
    then have "map_of output k' = Some v" using that lookup [of k'] by simp
    then have ne: "v \<noteq> []" and eq: "v = filter (\<lambda>q. fs_getsize fs q = Some k') paths"
      using b [of k' v] by blast+
    have "filter (\<lambda>q. fs_getsize fs q = Some k') (paths @ [p]) =
            filter (\<lambda>q. fs_getsize fs q = Some k') paths"
      using False sz by simp
    with ne eq show ?thesis by simp
  qed
  have c': "\<exists>k' v. fs_getsize fs q = Some k' \<and> map_of (output @ [(k, [p])]) k' = Some v"
    if "q \<in> set (paths @ [p])" for q
  proof (cases "q = p")
    case True
    then show ?thesis using sz lookup [of k] by simp
  next
    case False
    then have "q \<in> set paths" using that by simp
    then obtain k' v where kv: "fs_getsize fs q = Some k'" "map_of output k' = Some v"
      using c by blast
    then have "k' \<noteq> k" using new by auto
    then show ?thesis using kv lookup [of k'] by simp
  qed
  have m': "mset (concat (map snd (output @ [(k, [p])]))) = mset (paths @ [p])"
    using m by simp
  show ?thesis
    unfolding bucket_inv_def using d' b' c' m' by blast
qed

lemma bucket_inv_existing:
  assumes inv: "bucket_inv fs paths output"
    and sz: "fs_getsize fs p = Some k"
    and old: "map_of output k = Some existing_files"
  shows "bucket_inv fs (paths @ [p]) (AList.update k (existing_files @ [p]) output)"
proof -
  have d: "distinct (map fst output)"
    and b: "\<And>k' v. map_of output k' = Some v \<Longrightarrow>
              v \<noteq> [] \<and> v = filter (\<lambda>q. fs_getsize fs q = Some k') paths"
    and c: "\<And>q. q \<in> set paths \<Longrightarrow> \<exists>k' v. fs_getsize fs q = Some k' \<and> map_of output k' = Some v"
    and m: "mset (concat (map snd output)) = mset paths"
    using inv by (auto simp: bucket_inv_def)
  let ?out = "AList.update k (existing_files @ [p]) output"
  have lookup: "map_of ?out k' = (if k' = k then Some (existing_files @ [p]) else map_of output k')"
    for k'
    by (simp add: update_conv')
  have d': "distinct (map fst ?out)"
    using d by (rule distinct_update)
  have b': "v \<noteq> [] \<and> v = filter (\<lambda>q. fs_getsize fs q = Some k') (paths @ [p])"
    if "map_of ?out k' = Some v" for k' v
  proof (cases "k' = k")
    case True
    then have "v = existing_files @ [p]" using that lookup [of k'] by simp
    then show ?thesis using b [OF old] True sz by simp
  next
    case False
    then have "map_of output k' = Some v" using that lookup [of k'] by simp
    then have ne: "v \<noteq> []" and eq: "v = filter (\<lambda>q. fs_getsize fs q = Some k') paths"
      using b [of k' v] by blast+
    have "filter (\<lambda>q. fs_getsize fs q = Some k') (paths @ [p]) =
            filter (\<lambda>q. fs_getsize fs q = Some k') paths"
      using False sz by simp
    with ne eq show ?thesis by simp
  qed
  have c': "\<exists>k' v. fs_getsize fs q = Some k' \<and> map_of ?out k' = Some v"
    if "q \<in> set (paths @ [p])" for q
  proof (cases "q = p")
    case True
    then show ?thesis using sz lookup [of k] by simp
  next
    case False
    then have "q \<in> set paths" using that by simp
    then obtain k' v where kv: "fs_getsize fs q = Some k'" "map_of output k' = Some v"
      using c by blast
    then show ?thesis using lookup [of k'] by (cases "k' = k") auto
  qed
  have m': "mset (concat (map snd ?out)) = mset (paths @ [p])"
    using m mset_concat_update [OF old, of "[p]"] by simp
  show ?thesis
    unfolding bucket_inv_def using d' b' c' m' by blast
qed

lemma size_loop_inv:
  "list_all (\<lambda>n. fs_getsize fs (path_join path_d [n]) \<noteq> None) files_n \<Longrightarrow>
   bucket_inv fs paths output \<Longrightarrow>
   \<exists>out. size_loop fs path_d files_n output = Inr out
     \<and> bucket_inv fs (paths @ map (\<lambda>n. path_join path_d [n]) files_n) out"
proof (induction files_n arbitrary: paths "output")
  case Nil
  then show ?case by simp
next
  case (Cons file_n files_n)
  let ?p = "path_join path_d [file_n]"
  obtain k where k: "fs_getsize fs ?p = Some k"
    using Cons.prems(1) by auto
  have rest: "list_all (\<lambda>n. fs_getsize fs (path_join path_d [n]) \<noteq> None) files_n"
    using Cons.prems(1) by simp
  show ?case
  proof (cases "map_of output k")
    case None
    have "bucket_inv fs (paths @ [?p]) (output @ [(k, [?p])])"
      using Cons.prems(2) k None by (rule bucket_inv_new)
    from Cons.IH [OF rest this] show ?thesis
      using k None by simp
  next
    case (Some existing_files)
    have "bucket_inv fs (paths @ [?p]) (AList.update k (existing_files @ [?p]) output)"
      using Cons.prems(2) k Some by (rule bucket_inv_existing)
    from Cons.IH [OF rest this] show ?thesis
      using k Some by simp
  qed
qed


section \<open>The claims\<close>

subsection \<open>Symbolic links\<close>

text \<open>
  Claim C1. For a link and a candidate directory, \<^verbatim>\<open>symlink_source_is_in_dir\<close> with
  \<^verbatim>\<open>include_subdirs=True\<close> is to return true exactly when the directory containing
  the link's resolved target lies inside the candidate; a link resolving to
  \<^verbatim>\<open>/data/x/y\<close> is to give true for \<^verbatim>\<open>/data\<close>.
  The code hands the link path, a string, to \<^verbatim>\<open>symlinks_to_real_paths\<close>, which
  turns it into the list of its characters; element 0 is the real path of the first
  character (see \<open>symlink_source_first_char\<close>). On the example filesystem the link
  \<^verbatim>\<open>/tmp/link\<close> resolves to \<^verbatim>\<open>/data/x/y\<close>, whose directory \<^verbatim>\<open>/data/x\<close> has
  the prefix \<^verbatim>\<open>/data\<close>, and the function returns false.
\<close>

theorem symlink_source_is_in_dir_misses_target:
  "fs_islink link_fs ''/tmp/link''
   \<and> fs_realpath link_fs ''/tmp/link'' = ''/data/x/y''
   \<and> path_split ''/data/x/y'' = (''/data/x'', ''y'')
   \<and> prefix ''/data'' ''/data/x''
   \<and> symlink_source_is_in_dir link_fs ''/tmp/link'' ''/data'' True = Inr False"
  by (simp add: symlink_source_is_in_dir_def symlinks_of_one_string link_fs_def
        path_split_def rstrip_def starts_with_sep_def sep_def)

text \<open>
  Claim C2. For one path given as a string, \<^verbatim>\<open>symlinks_to_real_paths\<close> is to return
  a one-element list holding the real path of that string. The code returns one
  element per character of the string, each the real path of that one character:
  for \<^verbatim>\<open>/tmp/link\<close> nine elements, none of them the link's target.
\<close>

theorem symlinks_to_real_paths_splits_string:
  "symlinks_to_real_paths fs (OnePath p) = map (\<lambda>c. fs_realpath fs [c]) p
   \<and> fs_realpath link_fs ''/tmp/link'' = ''/data/x/y''
   \<and> symlinks_to_real_paths link_fs (OnePath ''/tmp/link'') =
       [''/'', ''/home/user/t'', ''/home/user/m'', ''/home/user/p'', ''/'',
        ''/home/user/l'', ''/home/user/i'', ''/home/user/n'', ''/home/user/k'']"
  by (simp add: symlinks_of_one_string link_fs_def starts_with_sep_def sep_def)

subsection \<open>Directory lock\<close>

text \<open>
  Claim C3. \<^verbatim>\<open>lock_dir\<close> is to change the permissions of an existing directory so
  that its entry list can no longer be modified. The code checks its two
  preconditions and returns: the filesystem after the call is the filesystem before
  it, permission bits included.
\<close>

theorem lock_dir_leaves_filesystem:
  "fs_exists fs path_d \<Longrightarrow> fs_isdir fs path_d \<Longrightarrow> lock_dir fs path_d = Inr fs"
  by (simp add: lock_dir_def)

theorem lock_dir_leaves_filesystem_witness:
  "fs_mode dir_fs ''/d'' = 493 \<and> lock_dir dir_fs ''/d'' = Inr dir_fs"
proof -
  have ex: "fs_exists dir_fs ''/d''" and dir: "fs_isdir dir_fs ''/d''"
    by (simp_all add: dir_fs_def)
  have "fs_mode dir_fs ''/d'' = 493" by (simp add: dir_fs_def)
  then show ?thesis using lock_dir_leaves_filesystem [OF ex dir] by simp
qed

subsection \<open>Grouping by size\<close>

text \<open>
  Claim C4, as amended. For an existing directory whose listing and sizes can be
  read, \<^verbatim>\<open>dir_files_keyed_by_size\<close> buckets every entry of the directory listing by
  the size the host reports for it, regular files and sub-directory entries alike,
  without descending into any of them. The keys are distinct, each bucket is the
  non-empty list of the entries of its size in listing order, and flattening the
  buckets recovers exactly the listed entries, as paths joined to the directory, none
  lost and none duplicated.
\<close>

theorem dir_files_keyed_by_size_groups_all_entries:
  assumes "fs_exists fs path_d"
    and "fs_listdir fs path_d = Some files_n"
    and "list_all (\<lambda>file_n. fs_getsize fs (path_join path_d [file_n]) \<noteq> None) files_n"
  shows "\<exists>out. dir_files_keyed_by_size fs path_d = Inr out
           \<and> distinct (map fst out)
           \<and> (\<forall>(file_size, bucket) \<in> set out.
                 bucket \<noteq> [] \<and>
                 bucket = filter (\<lambda>file_p. fs_getsize fs file_p = Some file_size)
                            (map (\<lambda>file_n. path_join path_d [file_n]) files_n))
           \<and> mset (concat (map snd out)) =
               mset (map (\<lambda>file_n. path_join path_d [file_n]) files_n)"
proof -
  obtain out where run: "size_loop fs path_d files_n [] = Inr out"
    and inv: "bucket_inv fs (map (\<lambda>file_n. path_join path_d [file_n]) files_n) out"
    using size_loop_inv [OF assms(3) bucket_inv_empty] by auto
  have res: "dir_files_keyed_by_size fs path_d = Inr out"
    using assms(1,2) run by (simp add: dir_files_keyed_by_size_def)
  have d: "distinct (map fst out)"
    using inv by (simp add: bucket_inv_def)
  have b: "\<forall>(file_size, bucket) \<in> set out.
             bucket \<noteq> [] \<and>
             bucket = filter (\<lambda>file_p. fs_getsize fs file_p = Some file_size)
                        (map (\<lambda>file_n. path_join path_d [file_n]) files_n)"
  proof (intro ballI, clarify)
    fix file_size bucket
    assume "(file_size, bucket) \<in> set out"
    then have "map_of out file_size = Some bucket"
      using d by simp
    then show "bucket \<noteq> [] \<and>
             bucket = filter (\<lambda>file_p. fs_getsize fs file_p = Some file_size)
                        (map (\<lambda>file_n. path_join path_d [file_n]) files_n)"
      using inv unfolding bucket_inv_def by blast
  qed
  have m: "mset (concat (map snd out)) = mset (map (\<lambda>file_n. path_join path_d [file_n]) files_n)"
    using inv by (simp add: bucket_inv_def)
  from res d b m show ?thesis by blast
qed

theorem dir_files_keyed_by_size_groups_all_entries_witness:
  "dir_files_keyed_by_size dir_fs ''/d'' =
     Inr [(10, [''/d/f1'', ''/d/f2'']), (4096, [''/d/sub'']), (20, [''/d/f3''])]
   \<and> mset (concat (map snd [(10 :: nat, [''/d/f1'', ''/d/f2'']), (4096, [''/d/sub'']), (20, [''/d/f3''])])) =
       mset [''/d/f1'', ''/d/sub'', ''/d/f2'', ''/d/f3'']"
proof -
  have ex: "fs_exists dir_fs ''/d''"
    by (simp add: dir_fs_def)
  have ls: "fs_listdir dir_fs ''/d'' = Some [''f1'', ''sub'', ''f2'', ''f3'']"
    by (simp add: dir_fs_def)
  have sz: "list_all (\<lambda>file_n. fs_getsize dir_fs (path_join ''/d'' [file_n]) \<noteq> None)
              [''f1'', ''sub'', ''f2'', ''f3'']"
    by (simp add: dir_fs_def path_eval)
  have paths: "map (\<lambda>file_n. path_join ''/d'' [file_n]) [''f1'', ''sub'', ''f2'', ''f3''] =
                 [''/d/f1'', ''/d/sub'', ''/d/f2'', ''/d/f3'']"
    by (simp add: path_eval)
  obtain out where out: "dir_files_keyed_by_size dir_fs ''/d'' = Inr out"
    and m: "mset (concat (map snd out)) =
              mset (map (\<lambda>file_n. path_join ''/d'' [file_n]) [''f1'', ''sub'', ''f2'', ''f3''])"
    using dir_files_keyed_by_size_groups_all_entries [OF ex ls sz] by blast
  have "out = [(10, [''/d/f1'', ''/d/f2'']), (4096, [''/d/sub'']), (20, [''/d/f3''])]"
    using out dir_fs_grouping by simp
  with out m paths show ?thesis by simp
qed

text \<open>
  The claim as stated has sub-directory entries ignored. The function never asks
  whether an entry is a directory: in \<^verbatim>\<open>/d\<close> the sub-directory \<^verbatim>\<open>sub\<close> is bucketed
  under its own size \<open>4096\<close> (and its content \<^verbatim>\<open>deep\<close> is not visited).
\<close>

theorem dir_files_keyed_by_size_buckets_subdir:
  "fs_isdir dir_fs ''/d/sub''
   \<and> fs_listdir dir_fs ''/d'' = Some [''f1'', ''sub'', ''f2'', ''f3'']
   \<and> dir_files_keyed_by_size dir_fs ''/d'' =
        Inr [(10, [''/d/f1'', ''/d/f2'']), (4096, [''/d/sub'']), (20, [''/d/f3''])]"
  by (simp add: dir_files_keyed_by_size_def dir_fs_def path_eval)

subsection \<open>Recursive listing\<close>

text \<open>
  Claim C5. Every entry returned by \<^verbatim>\<open>recursively_list_files_in_dirs\<close> is to be the
  walk's directory joined with the file name. The code joins the directory twice,
  \<^verbatim>\<open>os.path.join(dir_d, dir_d, file_n)\<close>: for an absolute directory the second copy
  replaces the first (\<open>join_twice_absolute\<close>), for a relative one it is appended.
  For the relative directory \<^verbatim>\<open>proj\<close> holding \<^verbatim>\<open>f.txt\<close> and \<^verbatim>\<open>sub/g.txt\<close> the
  result names \<^verbatim>\<open>proj/proj/f.txt\<close> and \<^verbatim>\<open>proj/sub/proj/sub/g.txt\<close>.
\<close>

theorem recursively_list_files_joins_dir_twice:
  "fs_exists proj_fs ''proj''
   \<and> fs_walk proj_fs ''proj'' = [(''proj'', [''sub''], [''f.txt'']), (''proj/sub'', [], [''g.txt''])]
   \<and> path_join ''proj'' [''f.txt''] = ''proj/f.txt''
   \<and> recursively_list_files_in_dirs proj_fs (OnePath ''proj'') =
        Inr [''proj/proj/f.txt'', ''proj/sub/proj/sub/g.txt'']"
  by (simp add: recursively_list_files_in_dirs_def walk_entries_def proj_fs_def path_eval)

subsection \<open>Path conversion\<close>

text \<open>
  Claim C9, as amended. \<^verbatim>\<open>convert_unix_path_to_os_path\<close> fails with the assertion
  error when its input is not a string. On a string it never fails: splitting always
  yields at least one segment, and an input that is empty after stripping the leading
  slashes gives the empty string.
\<close>

theorem convert_unix_path_failures:
  "((\<forall>s. path \<noteq> PStr s) \<longrightarrow> convert_unix_path_to_os_path path = Inl AssertionError)
   \<and> (\<exists>r. convert_unix_path_to_os_path (PStr s) = Inr r)
   \<and> (lstrip s = [] \<longrightarrow> convert_unix_path_to_os_path (PStr s) = Inr [])"
proof (intro conjI impI)
  assume "\<forall>s. path \<noteq> PStr s"
  then show "convert_unix_path_to_os_path path = Inl AssertionError"
    by (cases path) (simp_all add: convert_unix_path_to_os_path_def)
next
  show "\<exists>r. convert_unix_path_to_os_path (PStr s) = Inr r"
    using str_split_nonempty [of "lstrip s"]
    by (cases "str_split (lstrip s)") (simp_all add: convert_unix_path_to_os_path_def)
next
  assume "lstrip s = []"
  then show "convert_unix_path_to_os_path (PStr s) = Inr []"
    by (simp add: convert_unix_path_to_os_path_def path_join_def)
qed

theorem convert_unix_path_failures_witness:
  "convert_unix_path_to_os_path (PInt 3) = Inl AssertionError
   \<and> convert_unix_path_to_os_path (PStr ''//'') = Inr []"
proof -
  have a: "\<forall>s. PInt 3 \<noteq> PStr s" by simp
  have b: "lstrip ''//'' = []" by (simp add: lstrip_def sep_def)
  show ?thesis
    using convert_unix_path_failures [of "PInt 3" "''//''"] a b by blast
qed

text \<open>
  The claim as stated asks for a failure on an input that is empty after stripping.
  The inputs \<^verbatim>\<open>"/"\<close> and \<^verbatim>\<open>""\<close> are such inputs and return the empty string.
\<close>

theorem convert_unix_path_empty_result:
  "lstrip ''/'' = [] \<and> convert_unix_path_to_os_path (PStr ''/'') = Inr []
   \<and> convert_unix_path_to_os_path (PStr []) = Inr []"
  by (simp add: convert_unix_path_to_os_path_def lstrip_def sep_def path_join_def)

subsection \<open>Ancestor marker search\<close>

text \<open>
  Claim C6, as amended. For every existing directory and a falsy depth (\<^verbatim>\<open>None\<close> or
  \<open>0\<close>) \<^verbatim>\<open>ancestor_contains_file\<close> terminates. When the directory is given by its
  normalised absolute path and lies at least two levels below the root, and the
  markers are plain file names, the upward walk examines the ancestors of the
  directory in nearest-to-farthest order up to and including the first that holds a
  marker, and returns that ancestor; when no ancestor holds a marker it has examined
  every ancestor, the filesystem root \<^verbatim>\<open>/\<close> last and exactly once, and returns
  \<^verbatim>\<open>None\<close>.
\<close>

theorem acf_unbounded_walk:
  assumes "fs_exists fs path_p" and "fs_isdir fs path_p"
    and "depth = None \<or> depth = Some 0"
  shows "(\<exists>r. ancestor_contains_file fs path_p files_n depth = Inr r)
       \<and> (path_p = abs_path segs \<and> list_all plain_name segs \<and> 2 \<le> length segs
            \<and> markers = (case files_n of OnePath n \<Rightarrow> [n] | PathList ns \<Rightarrow> ns)
            \<and> list_all plain_name markers \<longrightarrow>
          ancestor_contains_file fs path_p files_n depth =
            Inr (map_option abs_path (List.find (holds_marker fs markers) (ancestors_of segs)))
          \<and> ancestor_examined fs path_p files_n depth =
              map abs_path (upto_first (holds_marker fs markers) (ancestors_of segs))
          \<and> last (ancestors_of segs) = [] \<and> abs_path [] = ''/''
          \<and> count_list (map abs_path (ancestors_of segs)) ''/'' = 1)"
proof (intro conjI impI)
  show "\<exists>r. ancestor_contains_file fs path_p files_n depth = Inr r"
    using assms(1,2) by (simp add: ancestor_contains_file_def)
next
  assume h: "path_p = abs_path segs \<and> list_all plain_name segs \<and> 2 \<le> length segs
            \<and> markers = (case files_n of OnePath n \<Rightarrow> [n] | PathList ns \<Rightarrow> ns)
            \<and> list_all plain_name markers"
  then have p: "path_p = abs_path segs" and v: "list_all plain_name segs" and n: "2 \<le> length segs"
    and vm: "list_all plain_name markers"
    by blast+
  have m: "names_of files_n = markers"
    using h by (simp add: names_of_def)
  have dir: "fs_isdir fs (abs_path segs)" using assms(2) p by simp
  have ne: "segs \<noteq> []" using n by auto
  show "ancestor_contains_file fs path_p files_n depth =
            Inr (map_option abs_path (List.find (holds_marker fs markers) (ancestors_of segs)))"
    using assms(1,2) acf_walk_abs_path(1) [OF dir assms(3) v n vm]
    by (simp add: ancestor_contains_file_def m p)
  show "ancestor_examined fs path_p files_n depth =
              map abs_path (upto_first (holds_marker fs markers) (ancestors_of segs))"
    using acf_walk_abs_path(2) [OF dir assms(3) v n vm]
    by (simp add: ancestor_examined_def m p)
  show "last (ancestors_of segs) = []"
    using ne by (rule ancestors_of_last)
  show "abs_path [] = ''/''"
    by (simp add: abs_path_def sep_def)
  show "count_list (map abs_path (ancestors_of segs)) ''/'' = 1"
    using root_once [OF v ne] by (simp add: sep_def)
qed

theorem acf_unbounded_walk_witness:
  "ancestor_contains_file tree_fs ''/a/b/c'' (PathList [''.n'', ''.m'']) None = Inr (Some ''/a'')
   \<and> ancestor_examined tree_fs ''/a/b/c'' (PathList [''.n'', ''.m'']) None = [''/a/b'', ''/a'']
   \<and> ancestor_contains_file tree_fs ''/a/b/c'' (OnePath ''.none'') (Some 0) = Inr None
   \<and> ancestor_examined tree_fs ''/a/b/c'' (OnePath ''.none'') (Some 0) = [''/a/b'', ''/a'', ''/'']"
proof -
  have ex: "fs_exists tree_fs ''/a/b/c''" and dir: "fs_isdir tree_fs ''/a/b/c''"
    by (simp_all add: tree_fs_def)
  have two: "2 \<le> length [''a'', ''b'', ''c'']" by simp
  have d1: "(None :: int option) = None \<or> None = Some (0 :: int)" by simp
  have d2: "Some (0 :: int) = None \<or> Some (0 :: int) = Some 0" by simp
  have lst: "[''.n'', ''.m''] = (case PathList [''.n'', ''.m''] of OnePath n \<Rightarrow> [n] | PathList ns \<Rightarrow> ns)"
    by simp
  have one: "[''.none''] = (case OnePath ''.none'' of OnePath n \<Rightarrow> [n] | PathList ns \<Rightarrow> ns)"
    by simp
  have a: "ancestor_contains_file tree_fs ''/a/b/c'' (PathList [''.n'', ''.m'']) None =
             Inr (map_option abs_path
                   (List.find (holds_marker tree_fs [''.n'', ''.m'']) (ancestors_of [''a'', ''b'', ''c''])))
         \<and> ancestor_examined tree_fs ''/a/b/c'' (PathList [''.n'', ''.m'']) None =
             map abs_path (upto_first (holds_marker tree_fs [''.n'', ''.m''])
                             (ancestors_of [''a'', ''b'', ''c'']))"
    using acf_unbounded_walk [OF ex dir d1, of "PathList [''.n'', ''.m'']"
            "[''a'', ''b'', ''c'']" "[''.n'', ''.m'']"]
      tree_fs_abc_path two lst by blast
  have b: "ancestor_contains_file tree_fs ''/a/b/c'' (OnePath ''.none'') (Some 0) =
             Inr (map_option abs_path
                   (List.find (holds_marker tree_fs [''.none'']) (ancestors_of [''a'', ''b'', ''c''])))
         \<and> ancestor_examined tree_fs ''/a/b/c'' (OnePath ''.none'') (Some 0) =
             map abs_path (upto_first (holds_marker tree_fs [''.none''])
                             (ancestors_of [''a'', ''b'', ''c'']))"
    using acf_unbounded_walk [OF ex dir d2, of "OnePath ''.none''"
            "[''a'', ''b'', ''c'']" "[''.none'']"]
      tree_fs_abc_path two one by blast
  have paths: "abs_path [''a'', ''b''] = ''/a/b''" "abs_path [''a''] = ''/a''" "abs_path [] = ''/''"
    by (simp_all add: abs_path_def sep_def)
  show ?thesis
    using a b by (simp add: tree_fs_abc_ancestors tree_fs_abc_holds paths)
qed

text \<open>
  The claim as stated promises one examination of the root for every starting
  directory. Starting from \<^verbatim>\<open>/a\<close>, directly below the root, the first directory
  examined is already \<^verbatim>\<open>/\<close>; the latch is only set after that round, and the
  root is examined a second time before the walk stops.
\<close>

theorem acf_root_examined_twice:
  "fs_exists tree_fs ''/a'' \<and> fs_isdir tree_fs ''/a''
   \<and> ''/a'' = abs_path [''a'']
   \<and> ancestor_examined tree_fs ''/a'' (OnePath ''.none'') None = [''/'', ''/'']
   \<and> ancestor_contains_file tree_fs ''/a'' (OnePath ''.none'') None = Inr None"
  by (simp add: ancestor_examined_def acf_examined.simps ancestor_contains_file_def acf_loop.simps
        depth_reached_def path_eval tree_fs_def abs_path_def)

text \<open>
  Claim C7. With \<^verbatim>\<open>depth=1\<close> and one marker name the call is to return the immediate
  parent of the path exactly when the marker exists directly in that parent, and the
  absence signal when the marker is anywhere else. The code takes the parent with
  \<^verbatim>\<open>os.path.dirname\<close> on the path as written, after stripping its trailing
  separators. For \<^verbatim>\<open>/\<close> the strip leaves the empty path, and for \<^verbatim>\<open>.\<close> the
  \<^verbatim>\<open>dirname\<close> is the empty path; joining the empty path with the marker name gives
  the bare name, a path in the working directory. On the example filesystem neither
  the root nor the parent of the working directory holds \<^verbatim>\<open>.m\<close>; the working
  directory does, it is the one directory examined, and both calls return the empty
  path instead of the absence signal. (For a directory given by its normalised
  absolute path the parent is inspected, \<open>acf_bounded_one_abs_path\<close>.)
\<close>

theorem acf_depth_one_examines_working_directory:
  "fs_exists cwd_fs ''/'' \<and> fs_isdir cwd_fs ''/''
   \<and> \<not> fs_exists cwd_fs ''/.m''
   \<and> ancestor_contains_file cwd_fs ''/'' (OnePath ''.m'') (Some 1) = Inr (Some [])
   \<and> ancestor_examined cwd_fs ''/'' (OnePath ''.m'') (Some 1) = [[]]
   \<and> fs_exists cwd_fs ''.'' \<and> fs_isdir cwd_fs ''.''
   \<and> \<not> fs_exists cwd_fs ''../.m''
   \<and> ancestor_contains_file cwd_fs ''.'' (OnePath ''.m'') (Some 1) = Inr (Some [])
   \<and> ancestor_examined cwd_fs ''.'' (OnePath ''.m'') (Some 1) = [[]]"
  by (simp add: ancestor_examined_def acf_examined.simps ancestor_contains_file_def acf_loop.simps
        depth_reached_def path_eval cwd_fs_def)

text \<open>
  Claim C10. A negative depth is to behave exactly like \<^verbatim>\<open>depth=1\<close> and inspect only
  the immediate parent, returning it when a marker of the set is directly there and
  the absence signal otherwise. The first half holds for every call
  (\<open>acf_negative_depth_as_depth_one\<close>): the bound is truthy and the counter, 1 after
  the first round, is already at least the depth. The directory inspected is the one
  of claim C7: from \<^verbatim>\<open>/\<close> and from \<^verbatim>\<open>.\<close> with depth \<open>-3\<close> and the marker set
  \<^verbatim>\<open>.n\<close>, \<^verbatim>\<open>.m\<close> the call examines the working directory and returns the empty
  path, although no parent holds a marker. (For a directory given by its normalised
  absolute path the parent is inspected, \<open>acf_bounded_one_abs_path\<close>.)
\<close>

theorem acf_negative_depth_examines_working_directory:
  "fs_exists cwd_fs ''/'' \<and> fs_isdir cwd_fs ''/''
   \<and> \<not> fs_exists cwd_fs ''/.n'' \<and> \<not> fs_exists cwd_fs ''/.m''
   \<and> ancestor_contains_file cwd_fs ''/'' (PathList [''.n'', ''.m'']) (Some (- 3)) = Inr (Some [])
   \<and> ancestor_examined cwd_fs ''/'' (PathList [''.n'', ''.m'']) (Some (- 3)) = [[]]
   \<and> fs_exists cwd_fs ''.'' \<and> fs_isdir cwd_fs ''.''
   \<and> \<not> fs_exists cwd_fs ''../.n'' \<and> \<not> fs_exists cwd_fs ''../.m''
   \<and> ancestor_contains_file cwd_fs ''.'' (PathList [''.n'', ''.m'']) (Some (- 3)) = Inr (Some [])
   \<and> ancestor_examined cwd_fs ''.'' (PathList [''.n'', ''.m'']) (Some (- 3)) = [[]]"
  by (simp add: ancestor_examined_def acf_examined.simps ancestor_contains_file_def acf_loop.simps
        depth_reached_def path_eval cwd_fs_def)




end
